theory Spec2Isabelle
  imports Complex_Main
begin

section \<open>The bounded buffer (src/core/buffer.py)\<close>

text \<open>
  The two exceptions that \<open>BoundedBuffer\<close> raises: \<open>put\<close> raises \<open>ValueError\<close>
  on a closed buffer, \<open>get\<close> raises \<open>StopIteration\<close> on a closed and empty one.
\<close>

datatype error = ValueError | StopIteration

text \<open>
  The dictionary \<open>self.stats\<close> has five fixed keys, created in \<open>__init__\<close> and only
  ever incremented; it is a record with one field for each key.
\<close>

record stats =
  puts :: int
  gets :: int
  waits_for_space :: int
  waits_for_item :: int
  drop_count :: int

text \<open>
  The fields of a \<open>BoundedBuffer\<close>. The lock and the two condition variables are the
  scheduling discipline, modelled below; \<open>name\<close> only appears in trace messages.
\<close>

record 'a BoundedBuffer =
  capacity :: int
  buffer :: "'a list"
  closed :: bool
  stats :: stats
  op_counter :: int

definition BoundedBuffer_init :: "int \<Rightarrow> 'a BoundedBuffer" where
  "BoundedBuffer_init c =
     \<lparr>capacity = c, buffer = [], closed = False,
      stats = \<lparr>puts = 0, gets = 0, waits_for_space = 0, waits_for_item = 0, drop_count = 0\<rparr>,
      op_counter = 0\<rparr>"

text \<open>
  What a call, or a part of a call that runs with the lock held, ends in: a returned
  value, a raised exception, or \<open>Waiting\<close>: the thread sleeps in \<open>Condition.wait\<close>
  and has released the lock.
\<close>

datatype 'a outcome =
    Returned_bool bool
  | Returned_item 'a
  | Returned_None
  | Raised error
  | Waiting

subsection \<open>The parts of put and get that run with the lock held\<close>

text \<open>
  \<open>put\<close>, lines 80-105: the test of the while loop. When the buffer is full the
  wait counter is incremented and the thread goes to sleep (lines 82-86); otherwise the
  item is appended and counted (lines 98-105).
\<close>

definition put_check :: "'a BoundedBuffer \<Rightarrow> 'a \<Rightarrow> 'a outcome \<times> 'a BoundedBuffer" where
  "put_check b item =
     (if int (length (buffer b)) \<ge> capacity b
      then (Waiting, b\<lparr>stats := (stats b)\<lparr>waits_for_space := waits_for_space (stats b) + 1\<rparr>\<rparr>)
      else (Returned_bool True,
            b\<lparr>buffer := buffer b @ [item],
              stats := (stats b)\<lparr>puts := puts (stats b) + 1\<rparr>\<rparr>))"

text \<open>\<open>put\<close>, lines 72-80: the lock is taken, the operation is numbered, a closed buffer raises.\<close>

definition put_call :: "'a BoundedBuffer \<Rightarrow> 'a \<Rightarrow> 'a outcome \<times> 'a BoundedBuffer" where
  "put_call b item =
     (let b1 = b\<lparr>op_counter := op_counter b + 1\<rparr> in
      if closed b1 then (Raised ValueError, b1) else put_check b1 item)"

text \<open>
  \<open>put\<close>, lines 86-96 and back to the loop test: the thread wakes from the wait with the
  lock held again; \<open>success\<close> is what \<open>wait\<close> returned.
\<close>

definition put_wake :: "'a BoundedBuffer \<Rightarrow> 'a \<Rightarrow> bool \<Rightarrow> 'a outcome \<times> 'a BoundedBuffer" where
  "put_wake b item success =
     (if closed b then (Raised ValueError, b)
      else if \<not> success then (Returned_bool False, b)
      else put_check b item)"

text \<open>
  \<open>get\<close>, lines 119-144: the test of the while loop. An empty buffer raises when closed,
  and otherwise counts a wait and sleeps; a buffer with items gives up its head.
\<close>

definition get_check :: "'a BoundedBuffer \<Rightarrow> 'a outcome \<times> 'a BoundedBuffer" where
  "get_check b =
     (case buffer b of
        [] \<Rightarrow>
          if closed b then (Raised StopIteration, b)
          else (Waiting, b\<lparr>stats := (stats b)\<lparr>waits_for_item := waits_for_item (stats b) + 1\<rparr>\<rparr>)
      | item # rest \<Rightarrow>
          (Returned_item item,
           b\<lparr>buffer := rest, stats := (stats b)\<lparr>gets := gets (stats b) + 1\<rparr>\<rparr>))"

definition get_call :: "'a BoundedBuffer \<Rightarrow> 'a outcome \<times> 'a BoundedBuffer" where
  "get_call b = get_check (b\<lparr>op_counter := op_counter b + 1\<rparr>)"

definition get_wake :: "'a BoundedBuffer \<Rightarrow> bool \<Rightarrow> 'a outcome \<times> 'a BoundedBuffer" where
  "get_wake b success =
     (if \<not> success then (Returned_None, b) else get_check b)"

text \<open>\<open>try_put\<close>, lines 146-161, and \<open>close\<close>, lines 163-172: they never wait.\<close>

definition try_put :: "'a BoundedBuffer \<Rightarrow> 'a \<Rightarrow> bool \<times> 'a BoundedBuffer" where
  "try_put b item =
     (if closed b then (False, b)
      else if int (length (buffer b)) \<ge> capacity b
      then (False, b\<lparr>stats := (stats b)\<lparr>drop_count := drop_count (stats b) + 1\<rparr>\<rparr>)
      else (True,
            b\<lparr>buffer := buffer b @ [item],
              stats := (stats b)\<lparr>puts := puts (stats b) + 1\<rparr>\<rparr>))"

definition close :: "'a BoundedBuffer \<Rightarrow> 'a BoundedBuffer" where
  "close b = b\<lparr>closed := True\<rparr>"

definition qsize :: "'a BoundedBuffer \<Rightarrow> int" where
  "qsize b = int (length (buffer b))"

definition is_full :: "'a BoundedBuffer \<Rightarrow> bool" where
  "is_full b = (int (length (buffer b)) \<ge> capacity b)"

subsection \<open>Interleavings\<close>

text \<open>
  All the code of the buffer runs under \<open>self._lock\<close>, and a waiting thread has released
  it. So an execution with any number of threads is a sequence of the parts above, each
  run to its end before the next starts. An \<open>event\<close> names one part; a sequence of events
  in which \<open>PutWake\<close> and \<open>GetWake\<close> are placed freely covers every interleaving of the
  threads, and more.
\<close>

datatype 'a event =
    PutCall 'a
  | PutWake 'a bool
  | GetCall
  | GetWake bool
  | TryPut 'a
  | Close

fun step :: "'a BoundedBuffer \<Rightarrow> 'a event \<Rightarrow> 'a outcome \<times> 'a BoundedBuffer" where
  "step b (PutCall item) = put_call b item"
| "step b (PutWake item success) = put_wake b item success"
| "step b GetCall = get_call b"
| "step b (GetWake success) = get_wake b success"
| "step b (TryPut item) = (let (r, b') = try_put b item in (Returned_bool r, b'))"
| "step b Close = (Returned_None, close b)"

fun run :: "'a BoundedBuffer \<Rightarrow> 'a event list \<Rightarrow> 'a BoundedBuffer" where
  "run b [] = b"
| "run b (e # es) = run (snd (step b e)) es"

text \<open>The events of a run with what each one ended in.\<close>

fun trace :: "'a BoundedBuffer \<Rightarrow> 'a event list \<Rightarrow> ('a event \<times> 'a outcome) list" where
  "trace b [] = []"
| "trace b (e # es) = (e, fst (step b e)) # trace (snd (step b e)) es"

text \<open>
  The items that a successful \<open>put\<close> or \<open>try_put\<close> handed in, and the items that \<open>get\<close>
  handed out, in the order of the calls' returns.
\<close>

fun enqueued :: "('a event \<times> 'a outcome) list \<Rightarrow> 'a list" where
  "enqueued [] = []"
| "enqueued ((PutCall item, Returned_bool True) # t) = item # enqueued t"
| "enqueued ((PutWake item s, Returned_bool True) # t) = item # enqueued t"
| "enqueued ((TryPut item, Returned_bool True) # t) = item # enqueued t"
| "enqueued (_ # t) = enqueued t"

fun dequeued :: "('a event \<times> 'a outcome) list \<Rightarrow> 'a list" where
  "dequeued [] = []"
| "dequeued ((GetCall, Returned_item item) # t) = item # dequeued t"
| "dequeued ((GetWake s, Returned_item item) # t) = item # dequeued t"
| "dequeued (_ # t) = dequeued t"

subsection \<open>Whole calls of put and get\<close>

text \<open>
  One return of \<open>Condition.wait(timeout)\<close>: whether the thread was notified (\<open>wait\<close>
  returns \<open>True\<close> unless the timeout expired), and what the other threads did to the
  buffer while this one slept without the lock.
\<close>

type_synonym 'a wake = "bool \<times> 'a event list"

text \<open>
  The while loop of \<open>put\<close> from its first wait on. With no wake-up left the caller is
  still blocked, and so it is when it has no timeout and nobody notifies it.
\<close>

fun put_wait ::
  "'a BoundedBuffer \<Rightarrow> 'a \<Rightarrow> real option \<Rightarrow> 'a wake list \<Rightarrow> 'a outcome \<times> 'a BoundedBuffer" where
  "put_wait b item timeout [] = (Waiting, b)"
| "put_wait b item timeout ((notified, others) # ws) =
     (let b' = run b others in
      if timeout = None \<and> \<not> notified then (Waiting, b')
      else (case put_wake b' item notified of
              (Waiting, b'') \<Rightarrow> put_wait b'' item timeout ws
            | r \<Rightarrow> r))"

definition put ::
  "'a BoundedBuffer \<Rightarrow> 'a \<Rightarrow> real option \<Rightarrow> 'a wake list \<Rightarrow> 'a outcome \<times> 'a BoundedBuffer" where
  "put b item timeout ws =
     (case put_call b item of
        (Waiting, b') \<Rightarrow> put_wait b' item timeout ws
      | r \<Rightarrow> r)"

fun get_wait ::
  "'a BoundedBuffer \<Rightarrow> real option \<Rightarrow> 'a wake list \<Rightarrow> 'a outcome \<times> 'a BoundedBuffer" where
  "get_wait b timeout [] = (Waiting, b)"
| "get_wait b timeout ((notified, others) # ws) =
     (let b' = run b others in
      if timeout = None \<and> \<not> notified then (Waiting, b')
      else (case get_wake b' notified of
              (Waiting, b'') \<Rightarrow> get_wait b'' timeout ws
            | r \<Rightarrow> r))"

definition get ::
  "'a BoundedBuffer \<Rightarrow> real option \<Rightarrow> 'a wake list \<Rightarrow> 'a outcome \<times> 'a BoundedBuffer" where
  "get b timeout ws =
     (case get_call b of
        (Waiting, b') \<Rightarrow> get_wait b' timeout ws
      | r \<Rightarrow> r)"


section \<open>Telemetry events (src/core/metrics.py)\<close>

text \<open>
  A value of a metric payload (\<open>dict[str, Any]\<close>): the payloads built in this code hold
  strings and numbers. Times and durations are Python floats; they are real numbers here.
\<close>

datatype pyval = PyStr string | PyInt int | PyFloat real

text \<open>
  The four event classes. The two creation timestamps \<open>ts\<close> and \<open>ts_mono\<close> of the base
  class, filled in from the clocks by default, are left out.
\<close>

datatype LogEvent =
    TickEvent int string (tick_seq: int) (latency_ms: real) (drift_ms: real) (work_time_ms: real)
  | LockEvent int string string real real string
  | QueueStatEvent int string string int int int
  | MetricEvent int string "(string \<times> pyval) list"

fun is_TickEvent :: "LogEvent option \<Rightarrow> bool" where
  "is_TickEvent (Some (TickEvent r s n l d w)) = True"
| "is_TickEvent _ = False"

section \<open>The logger (src/data/database.py)\<close>

text \<open>
  The state of a \<open>SqlLogger\<close> that \<open>log\<close> and \<open>stop\<close> read and write: the unbounded
  queue, in which \<open>None\<close> is the sentinel that stops the writer, the flag \<open>_running\<close>,
  and the run identifier. The database and the writer thread are outside the model.
\<close>

record SqlLogger =
  queue :: "LogEvent option list"
  running :: bool
  run_id :: int

definition SqlLogger_init :: "int \<Rightarrow> SqlLogger" where
  "SqlLogger_init rid = \<lparr>queue = [], running = False, run_id = rid\<rparr>"

text \<open>\<open>start\<close>, lines 47-67, as far as the state above goes: it sets the flag.\<close>

definition start :: "SqlLogger \<Rightarrow> SqlLogger" where
  "start lg = lg\<lparr>running := True\<rparr>"

text \<open>\<open>stop\<close>, lines 69-72: the flag is cleared, then the sentinel is queued.\<close>

definition stop :: "SqlLogger \<Rightarrow> SqlLogger" where
  "stop lg = lg\<lparr>running := False, queue := queue lg @ [None]\<rparr>"

text \<open>\<open>log\<close>, lines 74-78.\<close>

definition log :: "SqlLogger \<Rightarrow> LogEvent \<Rightarrow> SqlLogger" where
  "log lg event = (if \<not> running lg then lg else lg\<lparr>queue := queue lg @ [Some event]\<rparr>)"

section \<open>The tick loop (src/subsystems/base.py)\<close>

record Subsystem =
  name :: string
  interval :: real
  last_tick_ts :: real
  tick_count :: int

text \<open>\<open>log_metric\<close>, lines 86-92.\<close>

definition log_metric :: "Subsystem \<Rightarrow> SqlLogger \<Rightarrow> (string \<times> pyval) list \<Rightarrow> SqlLogger" where
  "log_metric s lg payload = log lg (MetricEvent (run_id lg) (name s) payload)"

text \<open>
  \<open>execute_tick\<close> is \<open>pass\<close> in the base class; the three subclasses compute, use the
  buffer (catching its exceptions) and report through \<open>log_metric\<close>. What the logger
  sees of one \<open>execute_tick\<close> is the list of the payloads it reports.
\<close>

definition execute_tick :: "Subsystem \<Rightarrow> (string \<times> pyval) list list \<Rightarrow> SqlLogger \<Rightarrow> SqlLogger" where
  "execute_tick s payloads lg = foldl (log_metric s) lg payloads"

text \<open>
  The clock readings of one iteration of the loop of \<open>run\<close>, in program order:
  \<open>perf_counter\<close> at lines 47, 55, 60, 63 and 64, and \<open>time.time\<close> at line 51.
\<close>

record readings =
  loop_start :: real
  wall_clock :: real
  work_end :: real
  at_sleep_duration :: real
  at_latency :: real
  at_drift :: real

text \<open>
  One iteration of the while loop of \<open>run\<close>, lines 47-80: the new worker state, the new
  \<open>next_tick_time\<close>, the logger, and the time the thread then sleeps.
\<close>

definition run_iteration ::
  "(string \<times> pyval) list list \<Rightarrow> readings \<Rightarrow> Subsystem \<Rightarrow> real \<Rightarrow> SqlLogger
   \<Rightarrow> Subsystem \<times> real \<times> SqlLogger \<times> real" where
  "run_iteration payloads clk s next_tick_time lg =
     (let lg1 = execute_tick s payloads lg;
          s1 = s\<lparr>last_tick_ts := wall_clock clk, tick_count := tick_count s + 1\<rparr>;
          work_duration = (work_end clk - loop_start clk) * 1000;
          next_tick_time1 = next_tick_time + interval s1;
          sleep_duration = next_tick_time1 - at_sleep_duration clk;
          latency = (at_latency clk - loop_start clk) * 1000;
          drift = (at_drift clk - next_tick_time1) * 1000;
          lg2 = log lg1 (TickEvent (run_id lg1) (name s1) (tick_count s1)
                           latency drift work_duration)
      in (s1, next_tick_time1, lg2, if sleep_duration > 0 then sleep_duration else 1 / 100))"

section \<open>The watchdog (src/core/kernel.py)\<close>

text \<open>The metric event built at lines 145-149 for a subsystem found stalled.\<close>

definition stall_event :: "SqlLogger \<Rightarrow> Subsystem \<Rightarrow> real \<Rightarrow> LogEvent" where
  "stall_event lg s time_since_tick =
     MetricEvent (run_id lg) ''Kernel''
       [(''event'', PyStr ''stall_detected''), (''target'', PyStr (name s)),
        (''duration'', PyFloat time_since_tick)]"

text \<open>The for loop over the subsystems, lines 141-149.\<close>

fun check_subsystems :: "real \<Rightarrow> Subsystem list \<Rightarrow> SqlLogger \<Rightarrow> SqlLogger" where
  "check_subsystems now [] lg = lg"
| "check_subsystems now (s # ss) lg =
     (let time_since_tick = now - last_tick_ts s in
      check_subsystems now ss
        (if time_since_tick > 5 then log lg (stall_event lg s time_since_tick) else lg))"

text \<open>
  One period of \<open>_watchdog_loop\<close>, lines 138-168, after its two-second sleep: \<open>now\<close> is
  the reading of the wall clock at line 138, and \<open>buffer_name\<close> the name of the buffer,
  which its record leaves out. The warnings written to the Python log are not modelled.
\<close>

definition watchdog_period ::
  "real \<Rightarrow> Subsystem list \<Rightarrow> string \<Rightarrow> 'a BoundedBuffer \<Rightarrow> SqlLogger \<Rightarrow> SqlLogger" where
  "watchdog_period now subsystems buffer_name ev_buffer lg =
     (let lg1 = check_subsystems now subsystems lg;
          q_size = qsize ev_buffer
      in log lg1 (QueueStatEvent (run_id lg1) ''Kernel'' buffer_name q_size
                    (capacity ev_buffer) (drop_count (stats ev_buffer))))"

section \<open>Invariants of the buffer under every interleaving\<close>

text \<open>The atomic parts unfolded, for the case analyses over events.\<close>

lemmas part_defs =
  put_call_def put_wake_def put_check_def get_call_def get_wake_def get_check_def
  try_put_def close_def Let_def

lemma step_capacity: "capacity (snd (step b e)) = capacity b"
  by (cases e) (auto simp: part_defs split: list.splits)

lemma step_bounded:
  "int (length (buffer b)) \<le> max 0 (capacity b) \<Longrightarrow>
   int (length (buffer (snd (step b e)))) \<le> max 0 (capacity b)"
  by (cases e) (auto simp: part_defs split: list.splits)

lemma run_capacity: "capacity (run b es) = capacity b"
  by (induction es arbitrary: b) (simp_all add: step_capacity)

lemma run_bounded:
  "int (length (buffer b)) \<le> max 0 (capacity b) \<Longrightarrow>
   int (length (buffer (run b es))) \<le> max 0 (capacity b)"
proof (induction es arbitrary: b)
  case Nil
  then show ?case by simp
next
  case (Cons e es)
  from Cons.prems
  have "int (length (buffer (snd (step b e)))) \<le> max 0 (capacity (snd (step b e)))"
    by (simp only: step_capacity step_bounded)
  from Cons.IH [OF this] show ?case by (simp add: step_capacity)
qed

text \<open>
  C1. A buffer constructed with a capacity \<open>c\<close> of at least one holds, after any sequence
  of parts of \<open>put\<close>, \<open>get\<close>, \<open>try_put\<close> and \<open>close\<close> calls by any number of threads,
  between zero and \<open>c\<close> items. Every prefix of an execution is an execution, so the bound
  holds at every moment and not only at the end.
\<close>

theorem size_within_capacity:
  assumes "1 \<le> c"
  shows "0 \<le> qsize (run (BoundedBuffer_init c) es)
       \<and> qsize (run (BoundedBuffer_init c) es) \<le> c"
proof -
  have "int (length (buffer (BoundedBuffer_init c :: 'a BoundedBuffer)))
          \<le> max 0 (capacity (BoundedBuffer_init c :: 'a BoundedBuffer))"
    by (simp add: BoundedBuffer_init_def)
  from run_bounded [OF this, of es] assms show ?thesis
    by (simp add: qsize_def BoundedBuffer_init_def)
qed

theorem size_within_capacity_witness:
  "(1::int) \<le> 2
   \<and> 0 \<le> qsize (run (BoundedBuffer_init 2)
                [PutCall (10::nat), TryPut 11, PutCall 12, TryPut 13, GetCall, PutWake 12 True, Close])
   \<and> qsize (run (BoundedBuffer_init 2)
                [PutCall (10::nat), TryPut 11, PutCall 12, TryPut 13, GetCall, PutWake 12 True, Close]) \<le> 2"
  using size_within_capacity
    [of 2 "[PutCall (10::nat), TryPut 11, PutCall 12, TryPut 13, GetCall, PutWake 12 True, Close]"]
  by simp

lemma step_fifo:
  "buffer b @ enqueued [(e, fst (step b e))] =
   dequeued [(e, fst (step b e))] @ buffer (snd (step b e))"
  by (cases e) (auto simp: part_defs split: list.splits)

lemma enqueued_Cons: "enqueued (p # t) = enqueued [p] @ enqueued t"
  by (cases "p # t" rule: enqueued.cases) auto

lemma dequeued_Cons: "dequeued (p # t) = dequeued [p] @ dequeued t"
  by (cases "p # t" rule: dequeued.cases) auto

lemma run_fifo:
  "buffer b @ enqueued (trace b es) = dequeued (trace b es) @ buffer (run b es)"
proof (induction es arbitrary: b)
  case Nil
  then show ?case by simp
next
  case (Cons e es)
  let ?p = "(e, fst (step b e))" and ?b = "snd (step b e)"
  have "buffer b @ enqueued (trace b (e # es)) =
        (buffer b @ enqueued [?p]) @ enqueued (trace ?b es)"
    by (simp add: enqueued_Cons [of ?p "trace ?b es"])
  also have "\<dots> = dequeued [?p] @ (buffer ?b @ enqueued (trace ?b es))"
    by (simp only: step_fifo append_assoc)
  also have "\<dots> = dequeued [?p] @ dequeued (trace ?b es) @ buffer (run ?b es)"
    by (simp only: Cons.IH)
  also have "\<dots> = dequeued (trace b (e # es)) @ buffer (run b (e # es))"
    by (simp add: dequeued_Cons [of ?p "trace ?b es"])
  finally show ?case .
qed

text \<open>
  C2. First in, first out. In any execution from a fresh buffer, the items handed in by
  the successful \<open>put\<close> and \<open>try_put\<close> calls, in the order they were handed in, are the items
  that the \<open>get\<close> calls handed out, in the order they were handed out, followed by the
  items still queued. And a \<open>get\<close> that finds the buffer non-empty, at its call or after a
  wake-up, returns the head (the oldest item) and leaves the rest queued.
\<close>

theorem fifo_order:
  "enqueued (trace (BoundedBuffer_init c) es) =
     dequeued (trace (BoundedBuffer_init c) es) @ buffer (run (BoundedBuffer_init c) es)
   \<and> get_call (b\<lparr>buffer := x # xs\<rparr>) =
       (Returned_item x,
        b\<lparr>buffer := xs, op_counter := op_counter b + 1,
          stats := (stats b)\<lparr>gets := gets (stats b) + 1\<rparr>\<rparr>)
   \<and> get_wake (b\<lparr>buffer := x # xs\<rparr>) True =
       (Returned_item x,
        b\<lparr>buffer := xs, stats := (stats b)\<lparr>gets := gets (stats b) + 1\<rparr>\<rparr>)"
  using run_fifo [of "BoundedBuffer_init c" es]
  by (simp add: BoundedBuffer_init_def get_call_def get_wake_def get_check_def)

lemma step_conservation:
  "puts (stats b) = gets (stats b) + int (length (buffer b)) \<Longrightarrow>
   puts (stats (snd (step b e))) =
   gets (stats (snd (step b e))) + int (length (buffer (snd (step b e))))"
  by (cases e) (auto simp: part_defs split: list.splits)

lemma run_conservation:
  "puts (stats b) = gets (stats b) + int (length (buffer b)) \<Longrightarrow>
   puts (stats (run b es)) = gets (stats (run b es)) + int (length (buffer (run b es)))"
  by (induction es arbitrary: b) (simp_all add: step_conservation)

text \<open>
  C3. Conservation. In any execution from a fresh buffer, \<open>stats["puts"]\<close> equals
  \<open>stats["gets"]\<close> plus the number of items queued.
\<close>

theorem conservation_law:
  "puts (stats (run (BoundedBuffer_init c) es)) =
   gets (stats (run (BoundedBuffer_init c) es)) + qsize (run (BoundedBuffer_init c) es)"
  unfolding qsize_def by (rule run_conservation) (simp add: BoundedBuffer_init_def)

section \<open>A closed buffer\<close>

text \<open>
  C4. Nothing is enqueued on a closed buffer. A \<open>put\<close> called on a closed buffer raises
  \<open>ValueError\<close> (the closed-channel failure of \<open>put\<close>) and only numbers the operation. A
  \<open>put\<close> that found the buffer open and full, and wakes from its wait (notified, or at its
  timeout) to find that the other threads have closed the buffer meanwhile, raises
  \<open>ValueError\<close> too, and the buffer is as the other threads left it. So does any later
  wake-up of a waiting \<open>put\<close>. \<open>try_put\<close> on a closed buffer returns \<open>False\<close> and changes
  nothing.
\<close>

theorem closed_rejects_put:
  "(closed b \<longrightarrow>
      put b item timeout ws = (Raised ValueError, b\<lparr>op_counter := op_counter b + 1\<rparr>))
   \<and> (\<not> closed b \<and> is_full b \<and> (timeout \<noteq> None \<or> notified)
        \<and> closed (run (snd (put_call b item)) others) \<longrightarrow>
      put b item timeout ((notified, others) # ws) =
        (Raised ValueError, run (snd (put_call b item)) others)
      \<and> snd (put_call b item) =
          b\<lparr>op_counter := op_counter b + 1,
            stats := (stats b)\<lparr>waits_for_space := waits_for_space (stats b) + 1\<rparr>\<rparr>)
   \<and> (closed b \<longrightarrow> put_wake b item success = (Raised ValueError, b))
   \<and> (closed b \<longrightarrow> try_put b item = (False, b))"
  by (auto simp: put_def put_call_def put_wake_def put_check_def try_put_def is_full_def Let_def)

theorem closed_rejects_put_witness:
  "closed (close (BoundedBuffer_init 1 :: nat BoundedBuffer))
   \<and> put (close (BoundedBuffer_init 1)) (7::nat) None [] =
       (Raised ValueError, (close (BoundedBuffer_init 1))\<lparr>op_counter := 1\<rparr>)
   \<and> \<not> closed (run (BoundedBuffer_init 1) [PutCall (5::nat)])
   \<and> is_full (run (BoundedBuffer_init 1) [PutCall (5::nat)])
   \<and> put (run (BoundedBuffer_init 1) [PutCall (5::nat)]) 7 None [(True, [Close])] =
       (Raised ValueError,
        \<lparr>capacity = 1, buffer = [5], closed = True,
         stats = \<lparr>puts = 1, gets = 0, waits_for_space = 1, waits_for_item = 0, drop_count = 0\<rparr>,
         op_counter = 2\<rparr>)
   \<and> try_put (close (BoundedBuffer_init 1)) (7::nat) = (False, close (BoundedBuffer_init 1))"
  using closed_rejects_put [of "close (BoundedBuffer_init 1)" 7 None "[]" True "[]" True]
        closed_rejects_put [of "run (BoundedBuffer_init 1) [PutCall (5::nat)]" 7 None "[]" True "[Close]" True]
  by (simp add: BoundedBuffer_init_def part_defs is_full_def)

lemma get_check_raised:
  "get_check b = (Raised e, b') \<Longrightarrow> e = StopIteration \<and> buffer b' = [] \<and> closed b'"
  by (auto simp: get_check_def split: list.splits if_splits)

lemma get_wait_raised:
  "get_wait b timeout ws = (Raised e, b') \<Longrightarrow> e = StopIteration \<and> buffer b' = [] \<and> closed b'"
proof (induction ws arbitrary: b)
  case Nil
  then show ?case by simp
next
  case (Cons w ws)
  obtain notified others where w: "w = (notified, others)" by (cases w)
  show ?case
  proof (cases "get_wake (run b others) notified")
    case (Pair r b'')
    with Cons.prems w Cons.IH [of b''] show ?thesis
      by (cases r) (auto simp: get_wake_def Let_def split: if_splits dest: get_check_raised)
  qed
qed

lemma get_raised:
  "get b timeout ws = (Raised e, b') \<Longrightarrow> e = StopIteration \<and> buffer b' = [] \<and> closed b'"
proof (cases "get_call b")
  case (Pair r b'')
  assume "get b timeout ws = (Raised e, b')"
  with Pair show ?thesis
    by (cases r) (auto simp: get_def get_call_def dest: get_check_raised get_wait_raised)
qed

lemma drain_closed:
  "closed b \<Longrightarrow> buffer b = xs \<Longrightarrow>
   map snd (trace b (replicate (length xs) GetCall)) = map Returned_item xs
   \<and> fst (step (run b (replicate (length xs) GetCall)) GetCall) = Raised StopIteration"
proof (induction xs arbitrary: b)
  case Nil
  then show ?case by (simp add: get_call_def get_check_def)
next
  case (Cons x xs)
  let ?b = "snd (step b GetCall)"
  from Cons.prems have s: "fst (step b GetCall) = Returned_item x"
    and c: "closed ?b" and bb: "buffer ?b = xs"
    by (simp_all add: get_call_def get_check_def)
  from Cons.IH [OF c bb] s show ?case by simp
qed

text \<open>
  C5. A \<open>get\<close> raises only \<open>StopIteration\<close>, and only with the buffer empty and closed.
  On a closed buffer that holds items it returns the head. The items queued at the
  moment of closing all remain to be had: as many \<open>get\<close> calls as there are items return
  them in order, and only the next one raises.
\<close>

theorem get_closed_only_when_drained:
  "(get b timeout ws = (Raised e, b') \<longrightarrow> e = StopIteration \<and> buffer b' = [] \<and> closed b')
   \<and> (closed b \<and> buffer b = x # xs \<longrightarrow>
        get b timeout ws =
          (Returned_item x,
           b\<lparr>op_counter := op_counter b + 1, buffer := xs,
             stats := (stats b)\<lparr>gets := gets (stats b) + 1\<rparr>\<rparr>))
   \<and> (closed b \<longrightarrow>
        map snd (trace b (replicate (length (buffer b)) GetCall)) = map Returned_item (buffer b)
        \<and> fst (step (run b (replicate (length (buffer b)) GetCall)) GetCall) = Raised StopIteration)"
  using get_raised [of b timeout ws e b'] drain_closed [of b "buffer b"]
  by (auto simp: get_def get_call_def get_check_def)

theorem get_closed_only_when_drained_witness:
  "get (close (BoundedBuffer_init 2 :: nat BoundedBuffer)) None [] =
       (Raised StopIteration, (close (BoundedBuffer_init 2))\<lparr>op_counter := 1\<rparr>)
   \<and> buffer ((close (BoundedBuffer_init 2 :: nat BoundedBuffer))\<lparr>op_counter := 1\<rparr>) = []
   \<and> closed (run (BoundedBuffer_init 2) [PutCall (5::nat), PutCall 6, Close])
   \<and> buffer (run (BoundedBuffer_init 2) [PutCall (5::nat), PutCall 6, Close]) = [5, 6]
   \<and> fst (get (run (BoundedBuffer_init 2) [PutCall (5::nat), PutCall 6, Close]) None []) = Returned_item 5
   \<and> map snd (trace (run (BoundedBuffer_init 2) [PutCall (5::nat), PutCall 6, Close]) [GetCall, GetCall])
       = [Returned_item 5, Returned_item 6]
   \<and> fst (step (run (run (BoundedBuffer_init 2) [PutCall (5::nat), PutCall 6, Close]) [GetCall, GetCall]) GetCall)
       = Raised StopIteration"
  using get_closed_only_when_drained
          [of "close (BoundedBuffer_init 2)" None "[]" StopIteration
              "(close (BoundedBuffer_init 2))\<lparr>op_counter := 1\<rparr>" 0 "[]"]
        get_closed_only_when_drained
          [of "run (BoundedBuffer_init 2) [PutCall (5::nat), PutCall 6, Close]" None "[]" StopIteration
              "BoundedBuffer_init 2" 5 "[6]"]
  by (simp add: BoundedBuffer_init_def part_defs get_def)

section \<open>try_put on a full or closed buffer\<close>

text \<open>
  The claim C6 as stated fails on a closed buffer: \<open>try_put\<close> returns \<open>False\<close> there
  before it reaches the drop counter, which stays as it was.
\<close>

theorem try_put_closed_counterexample:
  "closed (close (BoundedBuffer_init 1 :: nat BoundedBuffer))
   \<and> fst (try_put (close (BoundedBuffer_init 1)) (7::nat)) = False
   \<and> drop_count (stats (snd (try_put (close (BoundedBuffer_init 1)) (7::nat)))) = 0
   \<and> drop_count (stats (snd (try_put (close (BoundedBuffer_init 1)) (7::nat))))
       \<noteq> drop_count (stats (close (BoundedBuffer_init 1 :: nat BoundedBuffer))) + 1"
  by (simp add: BoundedBuffer_init_def try_put_def close_def)

text \<open>
  C6, amended. \<open>try_put\<close> never waits. On a buffer that is full and not closed it returns
  \<open>False\<close>, increments \<open>stats["drop_count"]\<close> by one and changes nothing else. On a closed
  buffer it returns \<open>False\<close> and changes nothing at all, the drop counter included.
\<close>

theorem try_put_full_or_closed:
  "(\<not> closed b \<and> is_full b \<longrightarrow>
      try_put b item =
        (False, b\<lparr>stats := (stats b)\<lparr>drop_count := drop_count (stats b) + 1\<rparr>\<rparr>))
   \<and> (closed b \<longrightarrow> try_put b item = (False, b))"
  by (simp add: try_put_def is_full_def)

theorem try_put_full_or_closed_witness:
  "\<not> closed (run (BoundedBuffer_init 1) [PutCall (5::nat)])
   \<and> is_full (run (BoundedBuffer_init 1) [PutCall (5::nat)])
   \<and> try_put (run (BoundedBuffer_init 1) [PutCall (5::nat)]) 7 =
       (False,
        \<lparr>capacity = 1, buffer = [5], closed = False,
         stats = \<lparr>puts = 1, gets = 0, waits_for_space = 0, waits_for_item = 0, drop_count = 1\<rparr>,
         op_counter = 1\<rparr>)
   \<and> closed (close (BoundedBuffer_init 1 :: nat BoundedBuffer))
   \<and> try_put (close (BoundedBuffer_init 1)) (7::nat) = (False, close (BoundedBuffer_init 1))"
  using try_put_full_or_closed [of "run (BoundedBuffer_init 1) [PutCall (5::nat)]" 7]
        try_put_full_or_closed [of "close (BoundedBuffer_init 1)" 7]
  by (simp add: BoundedBuffer_init_def part_defs is_full_def)

section \<open>A put that times out\<close>

text \<open>
  C7. A \<open>put\<close> with a timeout on a buffer that is full and not closed, whose wait ends at
  the timeout with nothing done to the buffer by other threads, returns \<open>False\<close>. The
  queued items, the size, the capacity, the closed flag and the counters \<open>puts\<close>, \<open>gets\<close>,
  \<open>drop_count\<close> and \<open>waits_for_item\<close> are as before the call, and \<open>waits_for_space\<close> is
  one more. (The call also takes its sequence number from \<open>op_counter\<close>, which is not one
  of the \<open>stats\<close>.)
\<close>

theorem put_timeout_frame:
  assumes "\<not> closed b" and "is_full b"
  shows "put b item (Some t) ((False, []) # ws) =
           (Returned_bool False,
            b\<lparr>op_counter := op_counter b + 1,
              stats := (stats b)\<lparr>waits_for_space := waits_for_space (stats b) + 1\<rparr>\<rparr>)
       \<and> (\<forall>b'. snd (put b item (Some t) ((False, []) # ws)) = b' \<longrightarrow>
            buffer b' = buffer b \<and> qsize b' = qsize b \<and> capacity b' = capacity b
          \<and> closed b' = closed b
          \<and> puts (stats b') = puts (stats b) \<and> gets (stats b') = gets (stats b)
          \<and> drop_count (stats b') = drop_count (stats b)
          \<and> waits_for_item (stats b') = waits_for_item (stats b)
          \<and> waits_for_space (stats b') = waits_for_space (stats b) + 1)"
  using assms
  by (simp add: put_def put_call_def put_wake_def put_check_def is_full_def qsize_def Let_def)

theorem put_timeout_frame_witness:
  "\<not> closed (run (BoundedBuffer_init 1) [PutCall (5::nat)])
   \<and> is_full (run (BoundedBuffer_init 1) [PutCall (5::nat)])
   \<and> put (run (BoundedBuffer_init 1) [PutCall (5::nat)]) 7 (Some (1/5)) [(False, [])] =
       (Returned_bool False,
        \<lparr>capacity = 1, buffer = [5], closed = False,
         stats = \<lparr>puts = 1, gets = 0, waits_for_space = 1, waits_for_item = 0, drop_count = 0\<rparr>,
         op_counter = 2\<rparr>)"
  using put_timeout_frame [of "run (BoundedBuffer_init 1) [PutCall (5::nat)]" 7 "1/5" "[]"]
  by (simp add: BoundedBuffer_init_def part_defs is_full_def)

section \<open>The watchdog\<close>

lemma log_run_id: "run_id (log lg ev) = run_id lg"
  by (simp add: log_def)

lemma stall_event_log: "stall_event (log lg ev) = stall_event lg"
  by (auto simp: stall_event_def log_def fun_eq_iff)

lemma check_subsystems_calls:
  "check_subsystems now ss lg =
     foldl log lg (map (\<lambda>s. stall_event lg s (now - last_tick_ts s))
                       (filter (\<lambda>s. now - last_tick_ts s > 5) ss))"
proof (induction ss arbitrary: lg)
  case Nil
  then show ?case by simp
next
  case (Cons s ss)
  show ?case
  proof (cases "now - last_tick_ts s > 5")
    case True
    with Cons.IH [of "log lg (stall_event lg s (now - last_tick_ts s))"] show ?thesis
      by (simp add: Let_def stall_event_log)
  next
    case False
    with Cons.IH [of lg] show ?thesis by (simp add: Let_def)
  qed
qed

lemma foldl_log_running:
  "running lg \<Longrightarrow>
   queue (foldl log lg evs) = queue lg @ map Some evs
   \<and> running (foldl log lg evs) \<and> run_id (foldl log lg evs) = run_id lg"
  by (induction evs arbitrary: lg) (simp_all add: log_def)

lemma foldl_log_run_id: "run_id (foldl log lg evs) = run_id lg"
  by (induction evs arbitrary: lg) (simp_all add: log_run_id)

text \<open>
  C8. One watchdog period calls \<open>log\<close>, for the subsystems in their order, with a
  \<open>stall_detected\<close> metric event for exactly those whose last tick is more than the
  threshold of five seconds before \<open>now\<close>, and then with the one queue statistics event.
  With the logger running these events are queued; so for every registered subsystem its
  stall event is among the events of the period if and only if \<open>now - last_tick_ts\<close>
  exceeds the threshold.
\<close>

theorem watchdog_flags_exactly_stalled:
  "watchdog_period now subsystems nm ev_buffer lg =
     log (foldl log lg (map (\<lambda>s. stall_event lg s (now - last_tick_ts s))
                            (filter (\<lambda>s. now - last_tick_ts s > 5) subsystems)))
         (QueueStatEvent (run_id lg) ''Kernel'' nm (qsize ev_buffer)
            (capacity ev_buffer) (drop_count (stats ev_buffer)))
   \<and> (running lg \<longrightarrow>
        queue (watchdog_period now subsystems nm ev_buffer lg) =
          queue lg
          @ map (\<lambda>s. Some (stall_event lg s (now - last_tick_ts s)))
                (filter (\<lambda>s. now - last_tick_ts s > 5) subsystems)
          @ [Some (QueueStatEvent (run_id lg) ''Kernel'' nm (qsize ev_buffer)
                     (capacity ev_buffer) (drop_count (stats ev_buffer)))]
        \<and> (\<forall>s \<in> set subsystems.
              Some (stall_event lg s (now - last_tick_ts s))
                \<in> set (drop (length (queue lg))
                         (queue (watchdog_period now subsystems nm ev_buffer lg)))
              \<longleftrightarrow> now - last_tick_ts s > 5))"
proof -
  let ?evs = "map (\<lambda>s. stall_event lg s (now - last_tick_ts s))
                  (filter (\<lambda>s. now - last_tick_ts s > 5) subsystems)"
  let ?q = "QueueStatEvent (run_id lg) ''Kernel'' nm (qsize ev_buffer)
              (capacity ev_buffer) (drop_count (stats ev_buffer))"
  have 1: "watchdog_period now subsystems nm ev_buffer lg = log (foldl log lg ?evs) ?q"
    by (simp add: watchdog_period_def Let_def check_subsystems_calls foldl_log_run_id)
  have 2: "queue (watchdog_period now subsystems nm ev_buffer lg) =
             queue lg @ map Some ?evs @ [Some ?q]" if "running lg"
    using foldl_log_running [OF that, of ?evs] by (simp add: 1 log_def)
  have 3: "Some (stall_event lg s (now - last_tick_ts s))
             \<in> set (drop (length (queue lg))
                      (queue (watchdog_period now subsystems nm ev_buffer lg)))
           \<longleftrightarrow> now - last_tick_ts s > 5"
    if "running lg" and "s \<in> set subsystems" for s
    using that(2) by (auto simp: 2 [OF that(1)] stall_event_def)
  from 1 2 3 show ?thesis by (simp add: comp_def)
qed

theorem watchdog_flags_exactly_stalled_witness:
  "running (start (SqlLogger_init 1))
   \<and> queue (watchdog_period 100
        [\<lparr>name = ''Traffic'', interval = 1/2, last_tick_ts = 99, tick_count = 4\<rparr>,
         \<lparr>name = ''Energy'', interval = 1/2, last_tick_ts = 94, tick_count = 2\<rparr>,
         \<lparr>name = ''Water'', interval = 1/2, last_tick_ts = 95, tick_count = 3\<rparr>]
        ''EV_Charging_Queue'' (BoundedBuffer_init 10 :: nat BoundedBuffer) (start (SqlLogger_init 1))) =
      [Some (MetricEvent 1 ''Kernel''
               [(''event'', PyStr ''stall_detected''), (''target'', PyStr ''Energy''), (''duration'', PyFloat 6)]),
       Some (QueueStatEvent 1 ''Kernel'' ''EV_Charging_Queue'' 0 10 0)]"
proof -
  let ?subs = "[\<lparr>name = ''Traffic'', interval = 1/2, last_tick_ts = 99, tick_count = 4\<rparr>,
         \<lparr>name = ''Energy'', interval = 1/2, last_tick_ts = 94, tick_count = 2\<rparr>,
         \<lparr>name = ''Water'', interval = 1/2, last_tick_ts = 95, tick_count = 3\<rparr>]"
  let ?lg = "start (SqlLogger_init 1)"
  have r: "running ?lg"
    by (simp add: start_def SqlLogger_init_def)
  from watchdog_flags_exactly_stalled
         [of 100 ?subs "''EV_Charging_Queue''" "BoundedBuffer_init 10 :: nat BoundedBuffer" ?lg] r
  have "queue (watchdog_period 100 ?subs ''EV_Charging_Queue''
                 (BoundedBuffer_init 10 :: nat BoundedBuffer) ?lg) =
          queue ?lg
          @ map (\<lambda>s. Some (stall_event ?lg s (100 - last_tick_ts s)))
                (filter (\<lambda>s. 100 - last_tick_ts s > 5) ?subs)
          @ [Some (QueueStatEvent (run_id ?lg) ''Kernel'' ''EV_Charging_Queue''
                     (qsize (BoundedBuffer_init 10 :: nat BoundedBuffer))
                     (capacity (BoundedBuffer_init 10 :: nat BoundedBuffer))
                     (drop_count (stats (BoundedBuffer_init 10 :: nat BoundedBuffer))))]"
    by blast
  with r show ?thesis
    by (simp add: start_def SqlLogger_init_def stall_event_def qsize_def BoundedBuffer_init_def)
qed

section \<open>The tick loop\<close>

lemma execute_tick_run_id: "run_id (execute_tick s payloads lg) = run_id lg"
  unfolding execute_tick_def
  by (induction payloads arbitrary: lg) (simp_all add: log_metric_def log_def)

lemma execute_tick_queue:
  "running lg \<Longrightarrow>
   queue (execute_tick s payloads lg) =
     queue lg @ map (\<lambda>p. Some (MetricEvent (run_id lg) (name s) p)) payloads
   \<and> running (execute_tick s payloads lg)"
  unfolding execute_tick_def
  by (induction payloads arbitrary: lg) (simp_all add: log_metric_def log_def)

text \<open>
  C9. One iteration of the tick loop calls \<open>log\<close> once of its own, after \<open>execute_tick\<close>,
  and with a tick event; with the logger running, the events queued in the iteration are
  the metric events of \<open>execute_tick\<close> and then that one tick event. Its drift is the
  clock reading at line 64 minus the target \<open>next_tick_time\<close>, already advanced by the
  interval, in milliseconds: it is negative exactly when that reading is before the
  target.
\<close>

theorem tick_event_per_iteration:
  assumes "run_iteration payloads clk s next_tick_time lg = (s', next_tick_time', lg', slept)"
  shows "next_tick_time' = next_tick_time + interval s
       \<and> lg' = log (execute_tick s payloads lg)
                 (TickEvent (run_id lg) (name s) (tick_count s + 1)
                    ((at_latency clk - loop_start clk) * 1000)
                    ((at_drift clk - next_tick_time') * 1000)
                    ((work_end clk - loop_start clk) * 1000))
       \<and> (running lg \<longrightarrow>
            queue lg' =
              queue lg @ map (\<lambda>p. Some (MetricEvent (run_id lg) (name s) p)) payloads
              @ [Some (TickEvent (run_id lg) (name s) (tick_count s + 1)
                        ((at_latency clk - loop_start clk) * 1000)
                        ((at_drift clk - next_tick_time') * 1000)
                        ((work_end clk - loop_start clk) * 1000))]
            \<and> length (filter is_TickEvent (drop (length (queue lg)) (queue lg'))) = 1
            \<and> (\<forall>ev. Some ev = last (queue lg') \<longrightarrow>
                 drift_ms ev = (at_drift clk - next_tick_time') * 1000
               \<and> (drift_ms ev < 0 \<longleftrightarrow> at_drift clk < next_tick_time')))"
proof -
  let ?lg1 = "execute_tick s payloads lg"
  let ?t = "TickEvent (run_id lg) (name s) (tick_count s + 1)
              ((at_latency clk - loop_start clk) * 1000)
              ((at_drift clk - next_tick_time') * 1000)
              ((work_end clk - loop_start clk) * 1000)"
  from assms have n: "next_tick_time' = next_tick_time + interval s"
    by (simp add: run_iteration_def Let_def)
  from assms have l: "lg' = log ?lg1 ?t"
    by (auto simp: run_iteration_def Let_def execute_tick_run_id)
  have 1: "queue lg' =
             queue lg @ map (\<lambda>p. Some (MetricEvent (run_id lg) (name s) p)) payloads @ [Some ?t]"
    if "running lg"
    using execute_tick_queue [OF that, of s payloads] by (simp add: l log_def)
  have f: "filter is_TickEvent (map (\<lambda>p. Some (MetricEvent (run_id lg) (name s) p)) payloads) = []"
    by (induction payloads) simp_all
  have 2: "length (filter is_TickEvent (drop (length (queue lg)) (queue lg'))) = 1"
    if "running lg"
    by (simp add: 1 [OF that] f)
  have 3: "\<forall>ev. Some ev = last (queue lg') \<longrightarrow>
             drift_ms ev = (at_drift clk - next_tick_time') * 1000
           \<and> (drift_ms ev < 0 \<longleftrightarrow> at_drift clk < next_tick_time')"
    if "running lg"
    by (auto simp: 1 [OF that])
  from n l 1 2 3 show ?thesis by blast
qed

theorem tick_event_per_iteration_witness:
  "running (start (SqlLogger_init 1))
   \<and> run_iteration [[(''cars'', PyInt 100)]]
        \<lparr>loop_start = 10, wall_clock = 1000, work_end = 101 / 10, at_sleep_duration = 101 / 10,
         at_latency = 101 / 10, at_drift = 101 / 10\<rparr>
        \<lparr>name = ''Traffic'', interval = 1 / 2, last_tick_ts = 999, tick_count = 0\<rparr>
        10 (start (SqlLogger_init 1)) =
       (\<lparr>name = ''Traffic'', interval = 1 / 2, last_tick_ts = 1000, tick_count = 1\<rparr>,
        21 / 2,
        \<lparr>queue = [Some (MetricEvent 1 ''Traffic'' [(''cars'', PyInt 100)]),
                  Some (TickEvent 1 ''Traffic'' 1 100 (- 400) 100)],
         running = True, run_id = 1\<rparr>,
        2 / 5)
   \<and> length (filter is_TickEvent
        [Some (MetricEvent 1 ''Traffic'' [(''cars'', PyInt 100)]),
         Some (TickEvent 1 ''Traffic'' 1 100 (- 400) 100)]) = 1
   \<and> drift_ms (TickEvent 1 ''Traffic'' 1 100 (- 400) 100) = (101 / 10 - 21 / 2) * 1000"
proof -
  have r: "running (start (SqlLogger_init 1))"
    by (simp add: start_def SqlLogger_init_def)
  have e: "run_iteration [[(''cars'', PyInt 100)]]
        \<lparr>loop_start = 10, wall_clock = 1000, work_end = 101 / 10, at_sleep_duration = 101 / 10,
         at_latency = 101 / 10, at_drift = 101 / 10\<rparr>
        \<lparr>name = ''Traffic'', interval = 1 / 2, last_tick_ts = 999, tick_count = 0\<rparr>
        10 (start (SqlLogger_init 1)) =
       (\<lparr>name = ''Traffic'', interval = 1 / 2, last_tick_ts = 1000, tick_count = 1\<rparr>,
        21 / 2,
        \<lparr>queue = [Some (MetricEvent 1 ''Traffic'' [(''cars'', PyInt 100)]),
                  Some (TickEvent 1 ''Traffic'' 1 100 (- 400) 100)],
         running = True, run_id = 1\<rparr>,
        2 / 5)"
    by (simp add: run_iteration_def execute_tick_def log_metric_def log_def start_def
        SqlLogger_init_def Let_def)
  from tick_event_per_iteration [OF e] r e show ?thesis by simp
qed

section \<open>Logging while the logger is not running\<close>

text \<open>
  C10. \<open>log\<close> on a logger that is not running returns with the logger unchanged, its
  queue included: the event is dropped. That is so for a logger that was never started
  and for one that has been stopped.
\<close>

theorem log_discarded_when_not_running:
  "(\<not> running lg \<longrightarrow> log lg event = lg)
   \<and> log (SqlLogger_init rid) event = SqlLogger_init rid
   \<and> log (stop lg) event = stop lg"
  by (simp add: log_def SqlLogger_init_def stop_def)

theorem log_discarded_when_not_running_witness:
  "\<not> running (stop (start (SqlLogger_init 1)))
   \<and> log (stop (start (SqlLogger_init 1))) (MetricEvent 1 ''Traffic'' [(''cars'', PyInt 100)])
       = \<lparr>queue = [None], running = False, run_id = 1\<rparr>"
  using log_discarded_when_not_running
          [of "stop (start (SqlLogger_init 1))" "MetricEvent 1 ''Traffic'' [(''cars'', PyInt 100)]"]
  by (simp add: SqlLogger_init_def start_def stop_def)

end
